theory Spec2Isabelle
  imports Complex_Main "HOL-Library.Signed_Division"
begin

unbundle bit_operations_syntax

section \<open>Numbers\<close>

text \<open>
  A JavaScript number is a finite real, one of the two infinities, the negative zero, or
  NaN. The arithmetic below is the IEEE 754 arithmetic on these values with exact finite
  results: rounding, overflow and underflow of finite results, and the narrowing of a
  stored element to single precision by \<^verbatim>\<open>Float32Array\<close>, are outside the model.
  \<open>Fin 0\<close> is the positive zero.
\<close>

datatype number = Fin real | NegZero | PosInf | NegInf | NaN

fun val :: "number \<Rightarrow> real" where
  "val (Fin x) = x"
| "val _ = 0"

fun isneg :: "number \<Rightarrow> bool" where
  "isneg (Fin x) = (x < 0)"
| "isneg NegZero = True"
| "isneg NegInf = True"
| "isneg _ = False"


fun isinf :: "number \<Rightarrow> bool" where
  "isinf PosInf = True"
| "isinf NegInf = True"
| "isinf _ = False"

definition iszero :: "number \<Rightarrow> bool" where
  "iszero a = (a = Fin 0 \<or> a = NegZero)"

definition zero_signed :: "bool \<Rightarrow> number" where
  "zero_signed neg = (if neg then NegZero else Fin 0)"

definition inf_signed :: "bool \<Rightarrow> number" where
  "inf_signed neg = (if neg then NegInf else PosInf)"

definition fin :: "bool \<Rightarrow> real \<Rightarrow> number" where
  \<comment> \<open>a finite result; the flag is the sign an exact zero takes\<close>
  "fin neg r = (if r = 0 then zero_signed neg else Fin r)"

definition n_neg :: "number \<Rightarrow> number" where
  "n_neg a = (case a of Fin x \<Rightarrow> fin True (- x) | NegZero \<Rightarrow> Fin 0
              | PosInf \<Rightarrow> NegInf | NegInf \<Rightarrow> PosInf | NaN \<Rightarrow> NaN)"

definition n_add :: "number \<Rightarrow> number \<Rightarrow> number" where
  "n_add a b =
     (if a = NaN \<or> b = NaN then NaN
      else if isinf a \<and> isinf b then (if a = b then a else NaN)
      else if isinf a then a
      else if isinf b then b
      else fin (a = NegZero \<and> b = NegZero) (val a + val b))"

definition n_sub :: "number \<Rightarrow> number \<Rightarrow> number" where
  "n_sub a b = n_add a (n_neg b)"

definition n_mul :: "number \<Rightarrow> number \<Rightarrow> number" where
  "n_mul a b =
     (if a = NaN \<or> b = NaN then NaN
      else if (isinf a \<and> iszero b) \<or> (iszero a \<and> isinf b) then NaN
      else if isinf a \<or> isinf b then inf_signed (isneg a \<noteq> isneg b)
      else fin (isneg a \<noteq> isneg b) (val a * val b))"

definition n_div :: "number \<Rightarrow> number \<Rightarrow> number" where
  "n_div a b =
     (if a = NaN \<or> b = NaN then NaN
      else if (isinf a \<and> isinf b) \<or> (iszero a \<and> iszero b) then NaN
      else if isinf a \<or> iszero b then inf_signed (isneg a \<noteq> isneg b)
      else if isinf b then zero_signed (isneg a \<noteq> isneg b)
      else fin (isneg a \<noteq> isneg b) (val a / val b))"

definition n_lt :: "number \<Rightarrow> number \<Rightarrow> bool" where
  "n_lt a b =
     (if a = NaN \<or> b = NaN then False
      else if a = PosInf \<or> b = NegInf then False
      else if a = NegInf \<or> b = PosInf then True
      else val a < val b)"

definition n_le :: "number \<Rightarrow> number \<Rightarrow> bool" where
  "n_le a b =
     (if a = NaN \<or> b = NaN then False
      else if a = NegInf \<or> b = PosInf then True
      else if a = PosInf \<or> b = NegInf then False
      else val a \<le> val b)"

definition n_gt :: "number \<Rightarrow> number \<Rightarrow> bool" where
  "n_gt a b = n_lt b a"


definition n_sqrt :: "number \<Rightarrow> number" where
  \<comment> \<open>\<^verbatim>\<open>Math.sqrt\<close>: NaN below zero\<close>
  "n_sqrt a = (case a of Fin x \<Rightarrow> (if x < 0 then NaN else Fin (sqrt x)) | NegZero \<Rightarrow> NegZero
               | PosInf \<Rightarrow> PosInf | NegInf \<Rightarrow> NaN | NaN \<Rightarrow> NaN)"

definition n_max :: "number \<Rightarrow> number \<Rightarrow> number" where
  \<comment> \<open>\<^verbatim>\<open>Math.max\<close>: NaN if an argument is NaN; the positive zero is the larger zero\<close>
  "n_max a b =
     (if a = NaN \<or> b = NaN then NaN
      else if n_lt a b then b
      else if n_lt b a then a
      else if a = NegZero then b else a)"

definition n_min :: "number \<Rightarrow> number \<Rightarrow> number" where
  \<comment> \<open>\<^verbatim>\<open>Math.min\<close>: NaN if an argument is NaN; the negative zero is the smaller zero\<close>
  "n_min a b =
     (if a = NaN \<or> b = NaN then NaN
      else if n_lt a b then a
      else if n_lt b a then b
      else if a = NegZero then a else b)"

definition readAt :: "number list \<Rightarrow> int \<Rightarrow> number" where
  \<comment> \<open>an element read of a typed array, used as a number: outside the array the read
      gives \<^verbatim>\<open>undefined\<close>, which every arithmetic operator, comparison and typed-array
      store turns into NaN\<close>
  "readAt xs i = (if 0 \<le> i \<and> i < int (length xs) then xs ! nat i else NaN)"

section \<open>The circular buffer (src/audio/AudioBuffer.ts)\<close>

text \<open>
  Cursors and sizes are natural numbers. The field \<^verbatim>\<open>buffer\<close> is never null once the
  constructor has returned, so the \<^verbatim>\<open>if (!this.buffer)\<close> guards of the methods are not
  branches of the model. With \<^verbatim>\<open>size\<close> 0 the cursor arithmetic \<^verbatim>\<open>x % 0\<close> is NaN in the
  source; the operations that move a cursor are modelled for positive sizes. The
  constructor's last allocation, of 256 samples, is taken to succeed.
\<close>

record CircularBuffer =
  buffer :: "number list"
  writeIndex :: nat
  readIndex :: nat
  size_c :: nat
  filled :: bool

fun trySizes :: "(nat \<Rightarrow> bool) \<Rightarrow> nat \<Rightarrow> nat list \<Rightarrow> nat option" where
  \<comment> \<open>the constructor's loop over the candidate sizes; \<open>alloc\<close> says which allocations
      succeed\<close>
  "trySizes alloc sz [] = None"
| "trySizes alloc sz (trySize # rest) =
     (if trySize > sz then trySizes alloc sz rest
      else if alloc trySize then Some trySize
      else trySizes alloc sz rest)"

definition CircularBuffer_new :: "(nat \<Rightarrow> bool) \<Rightarrow> nat \<Rightarrow> CircularBuffer" where
  "CircularBuffer_new alloc sz =
     (let s = (case trySizes alloc sz [sz, 8192, 4096, 2048, 1024, 512] of
                 Some trySize \<Rightarrow> trySize | None \<Rightarrow> 256)
      in \<lparr>buffer = replicate s (Fin 0), writeIndex = 0, readIndex = 0, size_c = s,
          filled = False\<rparr>)"

definition write_step :: "CircularBuffer \<Rightarrow> number \<Rightarrow> CircularBuffer" where
  \<comment> \<open>one iteration of the loop of \<^verbatim>\<open>write\<close>\<close>
  "write_step cb x =
     (let cb1 = cb\<lparr>buffer := (buffer cb)[writeIndex cb := x]\<rparr>;
          cb2 = cb1\<lparr>writeIndex := (writeIndex cb1 + 1) mod size_c cb1\<rparr>
      in if writeIndex cb2 = readIndex cb2
         then cb2\<lparr>filled := True, readIndex := (readIndex cb2 + 1) mod size_c cb2\<rparr>
         else cb2)"

fun write_c :: "CircularBuffer \<Rightarrow> number list \<Rightarrow> CircularBuffer" where
  "write_c cb [] = cb"
| "write_c cb (x # data) = write_c (write_step cb x) data"

definition read_step :: "CircularBuffer \<Rightarrow> number \<times> CircularBuffer" where
  \<comment> \<open>one iteration of the loop of \<^verbatim>\<open>read\<close>: the element stored in the result and the
      buffer afterwards\<close>
  "read_step cb =
     (if \<not> filled cb \<and> readIndex cb = writeIndex cb then (Fin 0, cb)
      else
        (let v = readAt (buffer cb) (int (readIndex cb));
             cb1 = cb\<lparr>readIndex := (readIndex cb + 1) mod size_c cb\<rparr>
         in if readIndex cb1 = writeIndex cb1 then (v, cb1\<lparr>filled := False\<rparr>)
            else (v, cb1)))"

fun read :: "CircularBuffer \<Rightarrow> nat \<Rightarrow> number list \<times> CircularBuffer" where
  "read cb 0 = ([], cb)"
| "read cb (Suc n) =
     (let (v, cb1) = read_step cb; (vs, cb2) = read cb1 n in (v # vs, cb2))"

fun peekIndices :: "nat \<Rightarrow> nat \<Rightarrow> int \<Rightarrow> int list" where
  \<comment> \<open>the values \<^verbatim>\<open>peekIndex\<close> takes at the reads \<^verbatim>\<open>this.buffer[peekIndex]\<close> of the loop
      of \<^verbatim>\<open>peek\<close>; \<open>smod\<close> is the remainder of truncating division, as \<^verbatim>\<open>%\<close>\<close>
  "peekIndices sz 0 peekIndex = []"
| "peekIndices sz (Suc n) peekIndex =
     peekIndex # peekIndices sz n ((peekIndex + 1) smod int sz)"

definition peekStart :: "CircularBuffer \<Rightarrow> nat \<Rightarrow> nat \<Rightarrow> int" where
  "peekStart cb len offset =
     (int (writeIndex cb) - int len - int offset + int (size_c cb)) smod int (size_c cb)"

definition peek :: "CircularBuffer \<Rightarrow> nat \<Rightarrow> nat \<Rightarrow> number list" where
  "peek cb len offset =
     map (readAt (buffer cb)) (peekIndices (size_c cb) len (peekStart cb len offset))"

definition clear :: "CircularBuffer \<Rightarrow> CircularBuffer" where
  "clear cb = cb\<lparr>buffer := map (\<lambda>_. Fin 0) (buffer cb), writeIndex := 0, readIndex := 0,
                filled := False\<rparr>"

definition getAvailableData :: "CircularBuffer \<Rightarrow> nat" where
  "getAvailableData cb =
     (if filled cb then size_c cb
      else if writeIndex cb \<ge> readIndex cb then writeIndex cb - readIndex cb
      else size_c cb - readIndex cb + writeIndex cb)"

definition isFull :: "CircularBuffer \<Rightarrow> bool" where
  "isFull cb = filled cb"

datatype buffer_op = Write "number list" | Read nat | Clear

fun apply_op :: "CircularBuffer \<Rightarrow> buffer_op \<Rightarrow> CircularBuffer" where
  "apply_op cb (Write data) = write_c cb data"
| "apply_op cb (Read n) = snd (read cb n)"
| "apply_op cb Clear = clear cb"

fun apply_ops :: "CircularBuffer \<Rightarrow> buffer_op list \<Rightarrow> CircularBuffer" where
  "apply_ops cb [] = cb"
| "apply_ops cb (opn # ops) = apply_ops (apply_op cb opn) ops"

fun samplesWritten :: "buffer_op list \<Rightarrow> nat" where
  \<comment> \<open>the number of samples a sequence of operations writes in total\<close>
  "samplesWritten [] = 0"
| "samplesWritten (Write data # ops) = length data + samplesWritten ops"
| "samplesWritten (_ # ops) = samplesWritten ops"

definition always_alloc :: "nat \<Rightarrow> bool" where
  \<comment> \<open>the environment in which every allocation succeeds\<close>
  "always_alloc n = True"

section \<open>The audio buffer processor (src/audio/AudioBuffer.ts)\<close>

definition n_cos :: "number \<Rightarrow> number" where
  \<comment> \<open>\<^verbatim>\<open>Math.cos\<close>\<close>
  "n_cos a = (case a of Fin x \<Rightarrow> Fin (cos x) | NegZero \<Rightarrow> Fin 1 | _ \<Rightarrow> NaN)"

record AudioBufferProcessor =
  inputBuffer :: CircularBuffer
  frameSize :: nat
  hopSize :: nat
  windowFunction :: "number list"
  overlapBuffer :: "number list"

definition createWindow :: "nat \<Rightarrow> number list" where
  \<comment> \<open>the Blackman window\<close>
  "createWindow sz =
     map (\<lambda>i. let x = n_div (Fin (2 * pi * real i)) (n_sub (Fin (real sz)) (Fin 1))
              in n_add (n_sub (Fin 0.42) (n_mul (Fin 0.5) (n_cos x)))
                       (n_mul (Fin 0.08) (n_cos (n_mul (Fin 2) x))))
         [0..<sz]"

definition AudioBufferProcessor_new ::
  "(nat \<Rightarrow> bool) \<Rightarrow> nat \<Rightarrow> nat \<Rightarrow> nat \<Rightarrow> AudioBufferProcessor" where
  "AudioBufferProcessor_new alloc bufferSize frameSz hopSz =
     (let validBufferSize = max 2048 (min bufferSize 65536);
          validFrameSize = max 256 (min frameSz 4096);
          validHopSize = max 128 (min hopSz validFrameSize)
      in \<lparr>inputBuffer = CircularBuffer_new alloc validBufferSize,
          frameSize = validFrameSize,
          hopSize = validHopSize,
          windowFunction = createWindow validFrameSize,
          overlapBuffer = replicate validFrameSize (Fin 0)\<rparr>)"

definition addAudioData :: "AudioBufferProcessor \<Rightarrow> number list \<Rightarrow> AudioBufferProcessor" where
  "addAudioData p data = p\<lparr>inputBuffer := write_c (inputBuffer p) data\<rparr>"

definition windowedFrame :: "AudioBufferProcessor \<Rightarrow> number list" where
  \<comment> \<open>the frame one iteration of \<^verbatim>\<open>getWindowedFrames\<close> pushes: the peeked frame times the
      window, element by element\<close>
  "windowedFrame p =
     (let frame = peek (inputBuffer p) (frameSize p) 0
      in map (\<lambda>i. n_mul (readAt frame (int i)) (readAt (windowFunction p) (int i)))
             [0..<frameSize p])"

definition getFrames :: "AudioBufferProcessor \<Rightarrow> number list list" where
  "getFrames p =
     (let availableData = getAvailableData (inputBuffer p)
      in if availableData \<ge> frameSize p then [peek (inputBuffer p) (frameSize p) 0] else [])"

partial_function (option) windowedFrames_loop ::
  "nat \<Rightarrow> AudioBufferProcessor \<Rightarrow> number list list
     \<Rightarrow> (number list list \<times> AudioBufferProcessor) option" where
  \<comment> \<open>the \<^verbatim>\<open>while\<close> loop of \<^verbatim>\<open>getWindowedFrames\<close>; \<open>availableData\<close> is the constant read
      once before the loop; \<open>None\<close> is a loop that never exits\<close>
  "windowedFrames_loop availableData p frames =
     (if availableData \<ge> frameSize p
      then windowedFrames_loop availableData
             (p\<lparr>inputBuffer := snd (read (inputBuffer p) (hopSize p))\<rparr>)
             (frames @ [windowedFrame p])
      else Some (frames, p))"

definition getWindowedFrames ::
  "AudioBufferProcessor \<Rightarrow> (number list list \<times> AudioBufferProcessor) option" where
  "getWindowedFrames p =
     (let availableData = getAvailableData (inputBuffer p)
      in windowedFrames_loop availableData p [])"

section \<open>Linear prediction (src/utils/lpc.ts)\<close>

text \<open>
  The order is a natural number. The arrays \<^verbatim>\<open>a\<close>, \<^verbatim>\<open>k\<close> and \<^verbatim>\<open>atemp\<close> are lists updated
  by index; every store of the loop is inside its array. \<^verbatim>\<open>autocorr\<close> is read with
  \<open>readAt\<close>: a read past its end gives NaN.
\<close>

record LPCResult =
  coefficients :: "number list"
  reflectionCoefficients :: "number list"
  predictionError :: number
  gain :: number

record ld_state =
  ld_a :: "number list"
  ld_k :: "number list"
  ld_atemp :: "number list"
  ld_E :: number

definition levinson_step :: "number list \<Rightarrow> nat \<Rightarrow> ld_state \<Rightarrow> ld_state" where
  \<comment> \<open>the body of the recursion's loop at stage \<open>i\<close>, up to the update of \<open>E\<close>\<close>
  "levinson_step autocorr i st =
     (let sum = fold (\<lambda>j s. n_add s (n_mul (readAt (ld_a st) (int (j + 1)))
                                         (readAt autocorr (int (i - j)))))
                     [0..<i] (Fin 0);
          k1 = (ld_k st)[i := n_div (n_sub (readAt autocorr (int (i + 1))) sum) (ld_E st)];
          a1 = (ld_a st)[i + 1 := readAt k1 (int i)];
          atemp1 = fold (\<lambda>j atemp. atemp[j + 1 := n_sub (readAt a1 (int (j + 1)))
                                              (n_mul (readAt k1 (int i)) (readAt a1 (int (i - j))))])
                        [0..<i] (ld_atemp st);
          a2 = fold (\<lambda>j a. a[j + 1 := readAt atemp1 (int (j + 1))]) [0..<i] a1;
          E1 = n_mul (ld_E st) (n_sub (Fin 1) (n_mul (readAt k1 (int i)) (readAt k1 (int i))))
      in \<lparr>ld_a = a2, ld_k = k1, ld_atemp = atemp1, ld_E = E1\<rparr>)"

function levinson_loop :: "number list \<Rightarrow> nat \<Rightarrow> nat \<Rightarrow> ld_state \<Rightarrow> ld_state" where
  \<comment> \<open>the loop \<^verbatim>\<open>for (i = 0; i < order; i++)\<close> with its \<^verbatim>\<open>break\<close> on \<^verbatim>\<open>E <= 0\<close>\<close>
  "levinson_loop autocorr order i st =
     (if i < order
      then (let st1 = levinson_step autocorr i st
            in if n_le (ld_E st1) (Fin 0) then st1
               else levinson_loop autocorr order (i + 1) st1)
      else st)"
  by pat_completeness auto
termination
  by (relation "measure (\<lambda>(autocorr, order, i, st). order - i)") auto

declare levinson_loop.simps [simp del]

definition levinsonDurbin :: "number list \<Rightarrow> nat \<Rightarrow> LPCResult" where
  "levinsonDurbin autocorr order =
     (let st0 = \<lparr>ld_a = replicate (order + 1) (Fin 0), ld_k = replicate order (Fin 0),
                 ld_atemp = replicate (order + 1) (Fin 0), ld_E = readAt autocorr 0\<rparr>;
          st = levinson_loop autocorr order 0 st0
      in \<lparr>coefficients = map (\<lambda>i. readAt (ld_a st) (int (i + 1))) [0..<order],
          reflectionCoefficients = ld_k st,
          predictionError = ld_E st,
          gain = n_sqrt (ld_E st)\<rparr>)"

definition clip :: "number \<Rightarrow> number" where
  \<comment> \<open>\<^verbatim>\<open>Math.max(-0.99, Math.min(0.99, x))\<close>\<close>
  "clip x = n_max (Fin (- 0.99)) (n_min (Fin 0.99) x)"

definition area_step :: "number list \<Rightarrow> nat \<Rightarrow> number list \<Rightarrow> number list" where
  \<comment> \<open>one iteration of the loop of \<^verbatim>\<open>reflectionToArea\<close>\<close>
  "area_step reflectionCoeffs i areas =
     (let k = clip (readAt reflectionCoeffs (int i))
      in areas[i + 1 := n_mul (readAt areas (int i))
                               (n_div (n_sub (Fin 1) k) (n_add (Fin 1) k))])"


section \<open>The pitch estimator (src/audio/FeatureExtractor.ts)\<close>

text \<open>
  The sample rate is a natural number, as an audio context's is. The result is \<open>None\<close>
  for \<^verbatim>\<open>null\<close>.
\<close>

definition lagSum :: "number list \<Rightarrow> nat \<Rightarrow> number" where
  \<comment> \<open>the inner loop: the sum of \<^verbatim>\<open>frame[i] * frame[i + lag]\<close> over \<^verbatim>\<open>i < frame.length - lag\<close>\<close>
  "lagSum frame lag =
     fold (\<lambda>i s. n_add s (n_mul (readAt frame (int i)) (readAt frame (int (i + lag)))))
          [0..<length frame - lag] (Fin 0)"

definition pitchAutocorr :: "nat \<Rightarrow> number list \<Rightarrow> number list" where
  \<comment> \<open>the array \<^verbatim>\<open>autocorr\<close> after the first loop of \<^verbatim>\<open>estimatePitch\<close>\<close>
  "pitchAutocorr sampleRate frame =
     (let minPeriod = sampleRate div 500; maxPeriod = sampleRate div 50
      in fold (\<lambda>lag autocorr. autocorr[lag := lagSum frame lag])
              [minPeriod..<maxPeriod] (replicate maxPeriod (Fin 0)))"

definition pitchPeak :: "nat \<Rightarrow> number list \<Rightarrow> number \<times> nat" where
  \<comment> \<open>\<^verbatim>\<open>(maxValue, maxIndex)\<close> after the peak search\<close>
  "pitchPeak sampleRate autocorr =
     (let minPeriod = sampleRate div 500; maxPeriod = sampleRate div 50
      in fold (\<lambda>i (maxValue, maxIndex).
                 if n_gt (readAt autocorr (int i)) maxValue then (readAt autocorr (int i), i)
                 else (maxValue, maxIndex))
              [minPeriod..<maxPeriod] (Fin 0, 0))"

definition estimatePitch :: "nat \<Rightarrow> number list \<Rightarrow> number option" where
  "estimatePitch sampleRate frame =
     (let autocorr = pitchAutocorr sampleRate frame;
          (maxValue, maxIndex) = pitchPeak sampleRate autocorr;
          threshold = n_mul (readAt autocorr 0) (Fin 0.3)
      in if n_lt maxValue threshold then None
         else Some (n_div (Fin (real sampleRate)) (Fin (real maxIndex))))"

section \<open>The Fourier transform (FFT class, src/utils/fft.ts)\<close>

text \<open>
  Lengths, indices and bit counts are natural numbers, and \<^verbatim>\<open>&\<close>, \<^verbatim>\<open>|\<close>, \<^verbatim>\<open><<\<close>, \<^verbatim>\<open>>>\<close> are
  the bit operations on them. The source evaluates these operators on 32-bit integers;
  the two agree for lengths below \<open>2^31\<close>, and a signal of \<open>2^31\<close> samples and its array of as
  many \<^verbatim>\<open>Complex\<close> objects are beyond what the model covers.

  An element read outside the array of \<^verbatim>\<open>Complex\<close> objects gives \<^verbatim>\<open>undefined\<close>, and the
  method call on it throws a \<^verbatim>\<open>TypeError\<close>; the model stops with \<open>TypeError\<close> at the read.
\<close>

record Complex =
  real_c :: number
  imag_c :: number

definition add_c :: "Complex \<Rightarrow> Complex \<Rightarrow> Complex" where
  "add_c this other =
     \<lparr>real_c = n_add (real_c this) (real_c other), imag_c = n_add (imag_c this) (imag_c other)\<rparr>"

definition subtract_c :: "Complex \<Rightarrow> Complex \<Rightarrow> Complex" where
  "subtract_c this other =
     \<lparr>real_c = n_sub (real_c this) (real_c other), imag_c = n_sub (imag_c this) (imag_c other)\<rparr>"

definition multiply_c :: "Complex \<Rightarrow> Complex \<Rightarrow> Complex" where
  "multiply_c this other =
     \<lparr>real_c = n_sub (n_mul (real_c this) (real_c other)) (n_mul (imag_c this) (imag_c other)),
      imag_c = n_add (n_mul (real_c this) (imag_c other)) (n_mul (imag_c this) (real_c other))\<rparr>"

definition n_sin :: "number \<Rightarrow> number" where
  \<comment> \<open>\<^verbatim>\<open>Math.sin\<close>\<close>
  "n_sin a = (case a of Fin x \<Rightarrow> Fin (sin x) | NegZero \<Rightarrow> NegZero | _ \<Rightarrow> NaN)"

datatype fft_error = InvalidSize | TypeError

fun foldE :: "('i \<Rightarrow> 's \<Rightarrow> 'e + 's) \<Rightarrow> 'i list \<Rightarrow> 's \<Rightarrow> 'e + 's" where
  \<comment> \<open>a counted loop whose body can throw: the first error ends it\<close>
  "foldE f [] s = Inr s"
| "foldE f (x # xs) s = (case f x s of Inl e \<Rightarrow> Inl e | Inr s1 \<Rightarrow> foldE f xs s1)"

definition getC :: "Complex list \<Rightarrow> nat \<Rightarrow> fft_error + Complex" where
  "getC xs i = (if i < length xs then Inr (xs ! i) else Inl TypeError)"

fun bitReverse_loop :: "nat \<Rightarrow> nat \<Rightarrow> nat \<Rightarrow> nat" where
  \<comment> \<open>the loop of \<^verbatim>\<open>bitReverse\<close>, by the number of iterations left\<close>
  "bitReverse_loop 0 n reversed = reversed"
| "bitReverse_loop (Suc b) n reversed =
     bitReverse_loop b (drop_bit 1 n) (push_bit 1 reversed OR (n AND 1))"

definition bitReverse :: "nat \<Rightarrow> nat \<Rightarrow> nat" where
  "bitReverse n bits = bitReverse_loop bits n 0"

definition isPowerOfTwo :: "nat \<Rightarrow> bool" where
  "isPowerOfTwo n = (n > 0 \<and> (n AND (n - 1)) = 0)"

fun log2_c :: "nat \<Rightarrow> nat" where
  \<comment> \<open>\<^verbatim>\<open>Math.log2\<close> of a power of two: its exponent\<close>
  "log2_c n = (if n < 2 then 0 else Suc (log2_c (n div 2)))"

declare log2_c.simps [simp del]

definition swap_step :: "nat \<Rightarrow> nat \<Rightarrow> Complex list \<Rightarrow> fft_error + Complex list" where
  \<comment> \<open>one iteration of the bit-reversal loop\<close>
  "swap_step bits i complex =
     (let j = bitReverse i bits
      in if i < j
         then (case getC complex j of Inl e \<Rightarrow> Inl e
               | Inr cj \<Rightarrow> (case getC complex i of Inl e \<Rightarrow> Inl e
                  | Inr ci \<Rightarrow> Inr (complex[i := cj, j := ci])))
         else Inr complex)"

definition twiddle :: "nat \<Rightarrow> nat \<Rightarrow> Complex" where
  \<comment> \<open>the twiddle factor of butterfly \<open>j\<close> at a stage of block size \<open>m\<close>\<close>
  "twiddle m j =
     (let theta = n_div (n_mul (Fin (- 2)) (Fin pi)) (Fin (real m))
      in \<lparr>real_c = n_cos (n_mul (Fin (real j)) theta),
          imag_c = n_sin (n_mul (Fin (real j)) theta)\<rparr>)"

definition butterfly :: "nat \<Rightarrow> nat \<Rightarrow> nat \<Rightarrow> Complex list \<Rightarrow> fft_error + Complex list" where
  \<comment> \<open>the body of the innermost loop\<close>
  "butterfly stage k j complex =
     (let m = push_bit stage (1::nat); m2 = drop_bit 1 m
      in case getC complex (k + j + m2) of Inl e \<Rightarrow> Inl e
         | Inr c \<Rightarrow>
             (let t = multiply_c c (twiddle m j)
              in case getC complex (k + j) of Inl e \<Rightarrow> Inl e
                 | Inr u \<Rightarrow> Inr (complex[k + j := add_c u t, k + j + m2 := subtract_c u t])))"

function k_loop :: "nat \<Rightarrow> nat \<Rightarrow> nat \<Rightarrow> Complex list \<Rightarrow> fft_error + Complex list" where
  \<comment> \<open>the loop \<^verbatim>\<open>for (k = 0; k < N; k += m)\<close> of one stage, from \<open>k\<close> on\<close>
  "k_loop N stage k complex =
     (if k < N
      then (case foldE (butterfly stage k) [0..<drop_bit 1 (push_bit stage (1::nat))] complex of
              Inl e \<Rightarrow> Inl e
            | Inr complex1 \<Rightarrow> k_loop N stage (k + push_bit stage (1::nat)) complex1)
      else Inr complex)"
  by pat_completeness auto
termination
  by (relation "measure (\<lambda>(N, stage, k, complex). N - k)")
    (auto simp: push_bit_eq_mult intro!: diff_less_mono2)

declare k_loop.simps [simp del]

definition fft_core :: "Complex list \<Rightarrow> fft_error + Complex list" where
  \<comment> \<open>the transform of \<^verbatim>\<open>fft\<close> on its array of \<^verbatim>\<open>Complex\<close> objects: the bit reversal, then
      the stages\<close>
  "fft_core complex =
     (let N = length complex; bits = log2_c N
      in case foldE (swap_step bits) [0..<N] complex of Inl e \<Rightarrow> Inl e
         | Inr complex1 \<Rightarrow> foldE (\<lambda>stage. k_loop N stage 0) [1..<bits + 1] complex1)"

definition fft :: "number list \<Rightarrow> fft_error + Complex list" where
  "fft signal =
     (let N = length signal
      in if \<not> isPowerOfTwo N then Inl InvalidSize
         else fft_core (map (\<lambda>x. \<lparr>real_c = x, imag_c = Fin 0\<rparr>) signal))"

definition ifft :: "Complex list \<Rightarrow> fft_error + number list" where
  "ifft complex =
     (let N = length complex;
          conjugated = map (\<lambda>c. \<lparr>real_c = real_c c, imag_c = n_neg (imag_c c)\<rparr>) complex
      in case fft (map real_c conjugated) of Inl e \<Rightarrow> Inl e
         | Inr result \<Rightarrow>
             foldE (\<lambda>i signal. case getC result i of Inl e \<Rightarrow> Inl e
                      | Inr c \<Rightarrow> Inr (signal[i := n_div (real_c c) (Fin (real N))]))
                   [0..<N] (replicate N (Fin 0)))"

definition ifft_reference :: "Complex list \<Rightarrow> fft_error + number list" where
  \<comment> \<open>the inverse transform in the specification's words: conjugate every element, apply
      the forward transform to the conjugated complex sequence, scale by \<open>1/N\<close>, return the
      real parts\<close>
  "ifft_reference complex =
     (let N = length complex;
          conjugated = map (\<lambda>c. \<lparr>real_c = real_c c, imag_c = n_neg (imag_c c)\<rparr>) complex
      in if \<not> isPowerOfTwo N then Inl InvalidSize
         else (case fft_core conjugated of Inl e \<Rightarrow> Inl e
               | Inr result \<Rightarrow> Inr (map (\<lambda>c. n_div (real_c c) (Fin (real N))) result)))"

section \<open>Invariants and measures used in the proofs\<close>

definition cb_inv :: "CircularBuffer \<Rightarrow> bool" where
  "cb_inv cb = (0 < size_c cb \<and> length (buffer cb) = size_c cb \<and> writeIndex cb < size_c cb \<and> readIndex cb < size_c cb)"



definition gap :: "CircularBuffer \<Rightarrow> nat" where
  "gap cb = (if readIndex cb > writeIndex cb then readIndex cb - writeIndex cb - 1
             else readIndex cb + size_c cb - writeIndex cb - 1)"


section \<open>The circular buffer: lemmas\<close>

lemma inv_new: "0 < size_c (CircularBuffer_new alloc sz) \<Longrightarrow> cb_inv (CircularBuffer_new alloc sz)"
  by (simp add: cb_inv_def CircularBuffer_new_def Let_def)

lemma inv_write_step: "cb_inv cb \<Longrightarrow> cb_inv (write_step cb x)"
  by (simp add: cb_inv_def write_step_def Let_def)

lemma size_write_step [simp]: "size_c (write_step cb x) = size_c cb"
  by (simp add: write_step_def Let_def)

lemma inv_write: "cb_inv cb \<Longrightarrow> cb_inv (write_c cb d)"
  by (induction d arbitrary: cb) (simp_all add: inv_write_step)

lemma size_write [simp]: "size_c (write_c cb d) = size_c cb"
  by (induction d arbitrary: cb) simp_all

lemma inv_read_step: "cb_inv cb \<Longrightarrow> cb_inv (snd (read_step cb))"
  by (simp add: cb_inv_def read_step_def Let_def)

lemma size_read_step [simp]: "size_c (snd (read_step cb)) = size_c cb"
  by (simp add: read_step_def Let_def)

lemma inv_read: "cb_inv cb \<Longrightarrow> cb_inv (snd (read cb n))"
  by (induction n arbitrary: cb) (simp_all add: inv_read_step split: prod.splits, metis inv_read_step snd_conv)

lemma size_read [simp]: "size_c (snd (read cb n)) = size_c cb"
  by (induction n arbitrary: cb) (simp_all split: prod.splits, metis size_read_step snd_conv)

lemma inv_clear: "cb_inv cb \<Longrightarrow> cb_inv (clear cb)"
  by (simp add: cb_inv_def clear_def)

lemma size_clear [simp]: "size_c (clear cb) = size_c cb"
  by (simp add: clear_def)

lemma inv_apply_op: "cb_inv cb \<Longrightarrow> cb_inv (apply_op cb opn)"
  by (cases opn) (simp_all add: inv_write inv_read inv_clear)

lemma size_apply_op [simp]: "size_c (apply_op cb opn) = size_c cb"
  by (cases opn) simp_all

lemma inv_apply_ops: "cb_inv cb \<Longrightarrow> cb_inv (apply_ops cb ops)"
  by (induction ops arbitrary: cb) (simp_all add: inv_apply_op)

lemma size_apply_ops [simp]: "size_c (apply_ops cb ops) = size_c cb"
  by (induction ops arbitrary: cb) simp_all

lemma avail_le: "cb_inv cb \<Longrightarrow> getAvailableData cb \<le> size_c cb"
  by (auto simp: cb_inv_def getAvailableData_def)


lemma smod_nonneg: "0 \<le> a \<Longrightarrow> 0 < b \<Longrightarrow> (a::int) smod b = a mod b"
  by (simp add: signed_modulo_int_def sgn_if)

lemma peekIndices_range:
  "0 < sz \<Longrightarrow> 0 \<le> p \<Longrightarrow> p < int sz \<Longrightarrow> i \<in> set (peekIndices sz n p) \<Longrightarrow> 0 \<le> i \<and> i < int sz"
proof (induction n arbitrary: p)
  case 0
  then show ?case by simp
next
  case (Suc n)
  let ?q = "(p + 1) mod int sz"
  have q: "(p + 1) smod int sz = ?q"
    using Suc.prems(1,2) by (simp add: smod_nonneg)
  have q0: "0 \<le> ?q" and q1: "?q < int sz"
    using Suc.prems(1) by simp_all
  from Suc.prems(4) have "i = p \<or> i \<in> set (peekIndices sz n ?q)"
    by (simp add: q)
  then show ?case
  proof
    assume "i = p"
    then show ?thesis using Suc.prems(2,3) by simp
  next
    assume "i \<in> set (peekIndices sz n ?q)"
    then show ?thesis by (rule Suc.IH [OF Suc.prems(1) q0 q1])
  qed
qed

lemma peekStart_range:
  assumes "cb_inv cb" "len + offset \<le> size_c cb"
  shows "0 \<le> peekStart cb len offset \<and> peekStart cb len offset < int (size_c cb)"
proof -
  let ?a = "int (writeIndex cb) - int len - int offset + int (size_c cb)"
  have "0 \<le> ?a" using assms by simp
  moreover have "0 < int (size_c cb)" using assms by (simp add: cb_inv_def)
  ultimately have "peekStart cb len offset = ?a mod int (size_c cb)"
    unfolding peekStart_def by (rule smod_nonneg)
  then show ?thesis using \<open>0 < int (size_c cb)\<close> by simp
qed

lemma write_snoc: "write_c cb (d @ [x]) = write_step (write_c cb d) x"
  by (induction d arbitrary: cb) simp_all

lemma writeIndex_write_step: "writeIndex (write_step cb x) = (writeIndex cb + 1) mod size_c cb"
  by (simp add: write_step_def Let_def)

lemma buffer_write_step: "buffer (write_step cb x) = (buffer cb)[writeIndex cb := x]"
  by (simp add: write_step_def Let_def)

lemma filled_write_step: "filled (write_step cb x) = (filled cb \<or> (writeIndex cb + 1) mod size_c cb = readIndex cb)"
  by (simp add: write_step_def Let_def)

lemma writeIndex_write: "writeIndex (write_c cb d) = (writeIndex cb + length d) mod size_c cb"
  if "cb_inv cb"
  using that
proof (induction d arbitrary: cb)
  case Nil
  then show ?case by (simp add: cb_inv_def)
next
  case (Cons x d)
  have "writeIndex (write_c (write_step cb x) d) = (writeIndex (write_step cb x) + length d) mod size_c cb"
    using Cons.IH [OF inv_write_step [OF Cons.prems]] by simp
  then show ?case by (simp add: writeIndex_write_step mod_add_left_eq)
qed

lemma mod_shift_neq: "0 < k \<Longrightarrow> k < S \<Longrightarrow> (a + k) mod S \<noteq> a mod (S::nat)"
proof
  assume k: "0 < k" "k < S" and eq: "(a + k) mod S = a mod S"
  have "S dvd (a + k) - a"
    using eq by (simp add: mod_eq_dvd_iff_nat)
  then have "S dvd k" by simp
  with k show False by (simp add: nat_dvd_not_less)
qed

lemma buffer_write:
  assumes "cb_inv cb"
  shows "i < length d \<Longrightarrow> length d - i \<le> size_c cb \<Longrightarrow>
         buffer (write_c cb d) ! ((writeIndex cb + i) mod size_c cb) = d ! i"
proof (induction d arbitrary: i rule: rev_induct)
  case Nil
  then show ?case by simp
next
  case (snoc x d)
  let ?cb = "write_c cb d"
  have inv: "cb_inv ?cb" using assms by (rule inv_write)
  have w: "writeIndex ?cb = (writeIndex cb + length d) mod size_c cb"
    using assms by (rule writeIndex_write)
  have len: "length (buffer ?cb) = size_c cb" "0 < size_c cb"
    using inv by (simp_all add: cb_inv_def)
  show ?case
  proof (cases "i = length d")
    case True
    then show ?thesis
      using len by (simp add: write_snoc buffer_write_step w)
  next
    case False
    then have i: "i < length d" using snoc.prems by simp
    have k: "0 < length d - i" "length d - i < size_c cb"
      using i snoc.prems by simp_all
    have "(writeIndex cb + i + (length d - i)) mod size_c cb \<noteq> (writeIndex cb + i) mod size_c cb"
      using k by (rule mod_shift_neq)
    then have neq: "(writeIndex cb + length d) mod size_c cb \<noteq> (writeIndex cb + i) mod size_c cb"
      using i by simp
    have "buffer ?cb ! ((writeIndex cb + i) mod size_c cb) = d ! i"
      using snoc.IH [OF i] k by simp
    then show ?thesis
      using neq i by (simp add: write_snoc buffer_write_step w nth_append)
  qed
qed

lemma peekIndices_map:
  "0 < sz \<Longrightarrow> 0 \<le> p \<Longrightarrow> peekIndices sz n p = map (\<lambda>t. (p + int t) mod int sz) [0..<n]"
  if "p < int sz"
  using that
proof (induction n arbitrary: p)
  case 0
  then show ?case by simp
next
  case (Suc n)
  let ?q = "(p + 1) mod int sz"
  have q: "(p + 1) smod int sz = ?q" using Suc.prems by (simp add: smod_nonneg)
  have "peekIndices sz n ?q = map (\<lambda>t. (?q + int t) mod int sz) [0..<n]"
    using Suc.prems by (intro Suc.IH) simp_all
  also have "\<dots> = map (\<lambda>t. (p + int (Suc t)) mod int sz) [0..<n]"
    by (simp add: mod_add_left_eq add.assoc)
  finally have tl: "peekIndices sz n ((p + 1) smod int sz) = map ((\<lambda>t. (p + int t) mod int sz) \<circ> Suc) [0..<n]"
    using q by (simp add: comp_def)
  have "[0..<Suc n] = 0 # map Suc [0..<n]"
    by (simp add: upt_conv_Cons map_Suc_upt del: upt_Suc)
  then have "map (\<lambda>t. (p + int t) mod int sz) [0..<Suc n] = p mod int sz # map ((\<lambda>t. (p + int t) mod int sz) \<circ> Suc) [0..<n]"
    by (simp del: upt_Suc)
  moreover have "p mod int sz = p" using Suc.prems by simp
  ultimately show ?case using tl by (simp del: upt_Suc)
qed

lemma peek_after_write:
  assumes inv: "cb_inv cb" and len: "size_c cb \<le> length d"
  shows "peek (write_c cb d) (size_c cb) 0 = drop (length d - size_c cb) d"
proof -
  let ?S = "size_c cb" and ?cb = "write_c cb d"
  let ?w = "writeIndex ?cb"
  have inv': "cb_inv ?cb" using inv by (rule inv_write)
  have S: "0 < ?S" "length (buffer ?cb) = ?S" "?w < ?S"
    using inv' by (simp_all add: cb_inv_def)
  have w: "?w = (writeIndex cb + length d) mod ?S"
    using inv by (rule writeIndex_write)
  have start: "peekStart ?cb ?S 0 = int ?w"
    using S by (simp add: peekStart_def smod_nonneg)
  have idx: "peekIndices ?S ?S (int ?w) = map (\<lambda>t. (int ?w + int t) mod int ?S) [0..<?S]"
    using S by (intro peekIndices_map) simp_all
  show ?thesis
  proof (rule nth_equalityI)
    show "length (peek ?cb ?S 0) = length (drop (length d - ?S) d)"
      using len by (simp add: peek_def start idx)
  next
    fix t assume "t < length (peek ?cb ?S 0)"
    then have t: "t < ?S" by (simp add: peek_def start idx)
    have "(int ?w + int t) mod int ?S = int ((?w + t) mod ?S)"
      by (simp add: zmod_int)
    then have "peek ?cb ?S 0 ! t = buffer ?cb ! ((?w + t) mod ?S)"
      using t S by (simp add: peek_def start idx readAt_def del: upt_Suc)
    also have "(?w + t) mod ?S = (writeIndex cb + (length d - ?S + t) + ?S) mod ?S"
      using len by (simp add: w mod_add_left_eq add.assoc)
    also have "\<dots> = (writeIndex cb + (length d - ?S + t)) mod ?S"
      by simp
    also have "buffer ?cb ! \<dots> = d ! (length d - ?S + t)"
      using inv by (rule buffer_write) (use t len in simp_all)
    also have "\<dots> = drop (length d - ?S) d ! t"
      using t len by simp
    finally show "peek ?cb ?S 0 ! t = drop (length d - ?S) d ! t" .
  qed
qed


lemma filled_write_step_mono: "filled cb \<Longrightarrow> filled (write_step cb x)"
  by (simp add: filled_write_step)

lemma filled_write_mono: "filled cb \<Longrightarrow> filled (write_c cb d)"
  by (induction d arbitrary: cb) (simp_all add: filled_write_step_mono)

lemma gap_lt: "cb_inv cb \<Longrightarrow> gap cb < size_c cb"
  by (auto simp: gap_def cb_inv_def)

lemma write_step_gap:
  assumes "cb_inv cb" "\<not> filled (write_step cb x)"
  shows "gap cb = Suc (gap (write_step cb x))"
proof -
  let ?w = "writeIndex cb" and ?r = "readIndex cb" and ?S = "size_c cb"
  have ne: "(?w + 1) mod ?S \<noteq> ?r"
    using assms(2) by (simp add: filled_write_step)
  then have r: "readIndex (write_step cb x) = ?r"
    by (simp add: write_step_def Let_def)
  have b: "?w < ?S" "?r < ?S" using assms(1) by (simp_all add: cb_inv_def)
  show ?thesis
  proof (cases "?w + 1 < ?S")
    case True
    then have w': "writeIndex (write_step cb x) = ?w + 1"
      by (simp add: writeIndex_write_step)
    have "?w + 1 \<noteq> ?r" using ne True by simp
    then show ?thesis
      using b True unfolding gap_def r w' size_write_step by auto
  next
    case False
    then have eq: "?w + 1 = ?S" using b by simp
    then have w': "writeIndex (write_step cb x) = 0"
      by (simp add: writeIndex_write_step)
    have "?r \<noteq> 0" using ne eq by simp
    then show ?thesis
      using b eq unfolding gap_def r w' size_write_step by simp
  qed
qed

lemma filled_write:
  "cb_inv cb \<Longrightarrow> gap cb < length d \<Longrightarrow> filled (write_c cb d)"
proof (induction d arbitrary: cb)
  case Nil
  then show ?case by simp
next
  case (Cons x d)
  show ?case
  proof (cases "filled (write_step cb x)")
    case True
    then show ?thesis by (simp add: filled_write_mono)
  next
    case False
    have "gap cb = Suc (gap (write_step cb x))"
      using Cons.prems(1) False by (rule write_step_gap)
    then have "gap (write_step cb x) < length d"
      using Cons.prems(2) by simp
    then show ?thesis
      using Cons.IH [OF inv_write_step [OF Cons.prems(1)]] by simp
  qed
qed

lemma filled_write_ge:
  "cb_inv cb \<Longrightarrow> size_c cb \<le> length d \<Longrightarrow> filled (write_c cb d)"
  using gap_lt [of cb] by (intro filled_write) simp_all

lemma size_new_always: "size_c (CircularBuffer_new always_alloc n) = n"
  by (simp add: CircularBuffer_new_def always_alloc_def)

lemma windowed_loop_exit:
  assumes "windowedFrames_loop a p fr = Some y"
  shows "a < frameSize p"
proof (rule windowedFrames_loop.raw_induct [where P = "\<lambda>a p fr y. a < frameSize p", OF _ assms])
  fix loop :: "nat \<Rightarrow> AudioBufferProcessor \<Rightarrow> number list list \<Rightarrow> (number list list \<times> AudioBufferProcessor) option"
  fix a p fr y
  assume IH: "\<And>a p fr y. loop a p fr = Some y \<Longrightarrow> a < frameSize p"
    and body: "(if frameSize p \<le> a
          then loop a (p\<lparr>inputBuffer := snd (read (inputBuffer p) (hopSize p))\<rparr>) (fr @ [windowedFrame p])
          else Some (fr, p)) = Some y"
  show "a < frameSize p"
  proof (cases "frameSize p \<le> a")
    case True
    with body have "loop a (p\<lparr>inputBuffer := snd (read (inputBuffer p) (hopSize p))\<rparr>) (fr @ [windowedFrame p]) = Some y"
      by simp
    from IH [OF this] show ?thesis by simp
  next
    case False
    then show ?thesis by simp
  qed
qed

lemma getWindowedFrames_diverges:
  "frameSize p \<le> getAvailableData (inputBuffer p) \<Longrightarrow> getWindowedFrames p = None"
  using windowed_loop_exit [of "getAvailableData (inputBuffer p)" p "[]"]
  by (cases "getWindowedFrames p") (auto simp: getWindowedFrames_def Let_def)

lemma write_step_no_collision:
  assumes "cb_inv cb" "0 < gap cb"
  shows "filled (write_step cb x) = filled cb \<and> readIndex (write_step cb x) = readIndex cb"
proof -
  let ?w = "writeIndex cb" and ?r = "readIndex cb" and ?S = "size_c cb"
  have b: "?w < ?S" "?r < ?S" using assms(1) by (simp_all add: cb_inv_def)
  have "(?w + 1) mod ?S \<noteq> ?r"
  proof (cases "?w + 1 < ?S")
    case True
    then show ?thesis using assms(2) by (auto simp: gap_def split: if_splits)
  next
    case False
    then have "?w + 1 = ?S" using b by simp
    then show ?thesis using assms(2) b by (auto simp: gap_def split: if_splits)
  qed
  then show ?thesis by (simp add: write_step_def Let_def)
qed

lemma write_no_collision:
  "cb_inv cb \<Longrightarrow> \<not> filled cb \<Longrightarrow> length d \<le> gap cb \<Longrightarrow>
   \<not> filled (write_c cb d) \<and> readIndex (write_c cb d) = readIndex cb"
proof (induction d arbitrary: cb)
  case Nil
  then show ?case by simp
next
  case (Cons x d)
  have g: "0 < gap cb" using Cons.prems(3) by simp
  have st: "filled (write_step cb x) = filled cb" "readIndex (write_step cb x) = readIndex cb"
    using write_step_no_collision [OF Cons.prems(1) g] by simp_all
  have nf: "\<not> filled (write_step cb x)" using st Cons.prems(2) by simp
  have "gap cb = Suc (gap (write_step cb x))"
    using Cons.prems(1) nf by (rule write_step_gap)
  then have "length d \<le> gap (write_step cb x)" using Cons.prems(3) by simp
  from Cons.IH [OF inv_write_step [OF Cons.prems(1)] nf this] show ?case
    by (simp add: st)
qed

lemma avail_after_write_fresh:
  assumes "length d < n"
  shows "getAvailableData (write_c (CircularBuffer_new always_alloc n) d) = length d"
proof -
  let ?cb = "CircularBuffer_new always_alloc n"
  have sz: "size_c ?cb = n" by (rule size_new_always)
  have inv: "cb_inv ?cb" using assms by (intro inv_new) (simp add: sz)
  have st: "writeIndex ?cb = 0" "readIndex ?cb = 0" "\<not> filled ?cb"
    by (simp_all add: CircularBuffer_new_def Let_def)
  have "gap ?cb = n - 1" by (simp add: gap_def st sz)
  then have "length d \<le> gap ?cb" using assms by simp
  from write_no_collision [OF inv st(3) this]
  have nf: "\<not> filled (write_c ?cb d)" and r: "readIndex (write_c ?cb d) = 0"
    by (simp_all add: st)
  have w: "writeIndex (write_c ?cb d) = length d"
    using writeIndex_write [OF inv, of d] assms by (simp add: st sz)
  show ?thesis by (simp add: getAvailableData_def nf r w)
qed

lemma read_append:
  "read cb (m + n) =
     (let (a, cb1) = read cb m; (b, cb2) = read cb1 n in (a @ b, cb2))"
  by (induction m arbitrary: cb) (simp_all add: Let_def split: prod.splits)

lemma read_run:
  "cb_inv cb \<Longrightarrow> writeIndex cb = 0 \<Longrightarrow> filled cb \<Longrightarrow> 0 < readIndex cb \<Longrightarrow>
   n = size_c cb - readIndex cb \<Longrightarrow>
   read cb n = (map ((!) (buffer cb)) [readIndex cb..<size_c cb],
                cb\<lparr>readIndex := 0, filled := False\<rparr>)"
proof (induction n arbitrary: cb)
  case 0
  then show ?case by (simp add: cb_inv_def)
next
  case (Suc n)
  let ?r = "readIndex cb" and ?S = "size_c cb"
  have r: "?r < ?S" "length (buffer cb) = ?S" using Suc.prems by (simp_all add: cb_inv_def)
  have v: "readAt (buffer cb) (int ?r) = buffer cb ! ?r" using r by (simp add: readAt_def)
  have up: "[?r..<?S] = ?r # [?r + 1..<?S]" using r by (simp add: upt_conv_Cons)
  show ?case
  proof (cases "?r + 1 = ?S")
    case True
    then have "n = 0" using Suc.prems(5) by simp
    moreover have "read_step cb = (buffer cb ! ?r, cb\<lparr>readIndex := 0, filled := False\<rparr>)"
      using Suc.prems(2,3) True v by (simp add: read_step_def Let_def)
    ultimately show ?thesis using True up by simp
  next
    case False
    then have lt: "?r + 1 < ?S" using r by simp
    let ?cb1 = "cb\<lparr>readIndex := ?r + 1\<rparr>"
    have st: "read_step cb = (buffer cb ! ?r, ?cb1)"
      using Suc.prems(2,3) lt v by (simp add: read_step_def Let_def)
    have "read ?cb1 n = (map ((!) (buffer ?cb1)) [readIndex ?cb1..<size_c ?cb1],
                ?cb1\<lparr>readIndex := 0, filled := False\<rparr>)"
      using Suc.prems lt by (intro Suc.IH) (simp_all add: cb_inv_def)
    then show ?thesis using st up by simp
  qed
qed

lemma write_exact_fresh:
  assumes S: "size_c (CircularBuffer_new alloc sz) = S" "2 \<le> S" and d: "length d = S"
  shows "write_c (CircularBuffer_new alloc sz) d =
           \<lparr>buffer = d, writeIndex = 0, readIndex = 1, size_c = S, filled = True\<rparr>"
proof -
  let ?cb = "CircularBuffer_new alloc sz"
  have inv: "cb_inv ?cb" using S by (intro inv_new) simp
  have st: "writeIndex ?cb = 0" "readIndex ?cb = 0" "\<not> filled ?cb"
    by (simp_all add: CircularBuffer_new_def Let_def)
  have ne: "d \<noteq> []" using d S by auto
  then have split: "d = butlast d @ [last d]" by simp
  let ?c0 = "write_c ?cb (butlast d)"
  have g: "gap ?cb = S - 1" by (simp add: gap_def st S)
  have lb: "length (butlast d) = S - 1" using d by simp
  from write_no_collision [OF inv st(3), of "butlast d"] g lb
  have c0: "\<not> filled ?c0" "readIndex ?c0 = 0" by (simp_all add: st)
  have w0: "writeIndex ?c0 = S - 1"
    using writeIndex_write [OF inv, of "butlast d"] S by (simp only: st lb) simp
  have s0: "size_c ?c0 = S" using S by simp
  have eq: "write_c ?cb d = write_step ?c0 (last d)"
    using write_snoc [of ?cb "butlast d" "last d"] split by simp
  have w: "writeIndex (write_c ?cb d) = 0"
    unfolding eq using S by (simp add: writeIndex_write_step w0 s0)
  have f: "filled (write_c ?cb d)"
    unfolding eq using S by (simp add: filled_write_step w0 s0 c0)
  have r: "readIndex (write_c ?cb d) = 1"
    unfolding eq using S by (simp add: write_step_def Let_def w0 s0 c0)
  have inv': "cb_inv (write_c ?cb d)" using inv by (rule inv_write)
  have b: "buffer (write_c ?cb d) = d"
  proof (rule nth_equalityI)
    show "length (buffer (write_c ?cb d)) = length d"
      using inv' S d by (simp add: cb_inv_def)
  next
    fix i assume "i < length (buffer (write_c ?cb d))"
    then have i: "i < S" using inv' S by (simp add: cb_inv_def)
    then show "buffer (write_c ?cb d) ! i = d ! i"
      using buffer_write [OF inv, of i d] d S by (simp add: st)
  qed
  have sz: "size_c (write_c ?cb d) = S" using S by simp
  show ?thesis using b w r sz f by (cases "write_c ?cb d") simp
qed

text \<open>
  For every capacity of at least 2: after exactly \<open>capacity\<close> samples are written into a
  fresh buffer, reading \<open>capacity\<close> samples returns all but the first of them, followed by
  one 0.
\<close>
lemma read_after_exact_write:
  assumes S: "size_c (CircularBuffer_new alloc sz) = S" "2 \<le> S" and d: "length d = S"
  shows "fst (read (write_c (CircularBuffer_new alloc sz) d) S) = tl d @ [Fin 0]"
proof -
  let ?cb = "\<lparr>buffer = d, writeIndex = 0, readIndex = 1, size_c = S, filled = True\<rparr>"
  let ?e = "?cb\<lparr>readIndex := 0, filled := False\<rparr>"
  have inv: "cb_inv ?cb" using S d by (simp add: cb_inv_def)
  have run: "read ?cb (S - 1) = (map ((!) d) [1..<S], ?e)"
    using read_run [OF inv, of "S - 1"] by simp
  have "map ((!) d) [1..<S] = drop 1 (map ((!) d) [0..<length d])"
    unfolding drop_map drop_upt using d by simp
  then have tl: "map ((!) d) [1..<S] = tl d" by (simp add: map_nth drop_Suc)
  have last: "read ?e (Suc 0) = ([Fin 0], ?e)"
    by (simp add: read_step_def)
  have "read ?cb (S - 1 + 1) = (tl d @ [Fin 0], ?e)"
    unfolding read_append run tl using last by (simp del: read.simps)
  moreover have "S - 1 + 1 = S" using S by simp
  ultimately show ?thesis using write_exact_fresh [OF assms] by simp
qed


section \<open>The circular buffer and the processor: claims\<close>

text \<open>
  C1. Claim: writing exactly \<open>capacity\<close> samples into a fresh buffer and reading \<open>capacity\<close>
  samples returns the written sequence. In the source the last of these writes brings the
  write cursor onto the read cursor, so \<^verbatim>\<open>write\<close> sets \<^verbatim>\<open>filled\<close> and also pushes the read
  cursor past the oldest sample. With capacity 2 and the samples 1, 2 the read returns 2
  followed by the 0 of an empty buffer, although \<^verbatim>\<open>getAvailableData\<close> reports 2 samples
  in that state.
\<close>
theorem C1_write_capacity_then_read_drops_oldest:
  "getAvailableData (write_c (CircularBuffer_new always_alloc 2) [Fin 1, Fin 2]) = 2 \<and>
   fst (read (write_c (CircularBuffer_new always_alloc 2) [Fin 1, Fin 2]) 2) = [Fin 2, Fin 0]"
  by code_simp

text \<open>
  C2. Claim: \<^verbatim>\<open>getWindowedFrames\<close> terminates in every reachable state. The loop tests the
  constant \<^verbatim>\<open>availableData\<close>, read once before the loop, so once it is entered it is never
  left: for the processor built with sizes 2048, 256, 128 that has received 256 samples the
  call does not return.
\<close>
theorem C2_getWindowedFrames_does_not_return:
  "getWindowedFrames
     (addAudioData (AudioBufferProcessor_new always_alloc 2048 256 128) (replicate 256 (Fin 0)))
   = None"
proof (rule getWindowedFrames_diverges)
  let ?p = "addAudioData (AudioBufferProcessor_new always_alloc 2048 256 128) (replicate 256 (Fin 0))"
  have "inputBuffer ?p = write_c (CircularBuffer_new always_alloc 2048) (replicate 256 (Fin 0))"
    by (simp add: addAudioData_def AudioBufferProcessor_new_def Let_def)
  moreover have "getAvailableData (write_c (CircularBuffer_new always_alloc 2048) (replicate 256 (Fin 0))) = 256"
    using avail_after_write_fresh [of "replicate 256 (Fin 0)" 2048] by simp
  moreover have "frameSize ?p = 256"
    by (simp add: addAudioData_def AudioBufferProcessor_new_def Let_def)
  ultimately show "frameSize ?p \<le> getAvailableData (inputBuffer ?p)" by simp
qed

text \<open>
  C9, as stated, counts the samples written over the whole sequence of operations. A read
  between or after the writes empties the buffer again: with capacity 2, three samples
  written and one read, the buffer is not full.
\<close>
theorem C9_counterexample:
  "size_c (CircularBuffer_new always_alloc 2) < samplesWritten [Write [Fin 1, Fin 2, Fin 3], Read 1]
   \<and> \<not> isFull (apply_ops (CircularBuffer_new always_alloc 2) [Write [Fin 1, Fin 2, Fin 3], Read 1])"
  by code_simp

text \<open>
  C9, amended. In every state reached from a fresh buffer of positive capacity by writes,
  reads and clears, \<^verbatim>\<open>getAvailableData\<close> is at most the capacity; and one write of more than
  \<open>capacity\<close> samples in such a state leaves the buffer full, reporting \<open>capacity\<close> available
  samples, its storage holding the last \<open>capacity\<close> samples written in order (what
  \<^verbatim>\<open>peek(capacity)\<close> returns) and nothing older.
\<close>
theorem C9_available_bounded_and_full_after_long_write:
  assumes "cb = apply_ops (CircularBuffer_new alloc sz) ops" and "0 < size_c cb"
  shows "getAvailableData cb \<le> size_c cb \<and>
         (size_c cb < length d \<longrightarrow>
            isFull (write_c cb d) \<and> getAvailableData (write_c cb d) = size_c cb \<and>
            peek (write_c cb d) (size_c cb) 0 = drop (length d - size_c cb) d)"
proof -
  have "0 < size_c (CircularBuffer_new alloc sz)" using assms by simp
  then have "cb_inv (CircularBuffer_new alloc sz)" by (rule inv_new)
  then have inv: "cb_inv cb" unfolding assms(1) by (rule inv_apply_ops)
  have a: "getAvailableData cb \<le> size_c cb" using inv by (rule avail_le)
  have b: "isFull (write_c cb d) \<and> getAvailableData (write_c cb d) = size_c cb \<and>
           peek (write_c cb d) (size_c cb) 0 = drop (length d - size_c cb) d"
    if "size_c cb < length d"
  proof -
    have le: "size_c cb \<le> length d" using that by simp
    have f: "filled (write_c cb d)" using inv le by (rule filled_write_ge)
    have p: "peek (write_c cb d) (size_c cb) 0 = drop (length d - size_c cb) d"
      using inv le by (rule peek_after_write)
    show ?thesis using f p by (simp add: isFull_def getAvailableData_def)
  qed
  show ?thesis using a b by blast
qed

text \<open>The amended C9 at capacity 2, after a write and a read, writing three samples.\<close>
theorem C9_available_bounded_and_full_after_long_write_witness:
  "getAvailableData (apply_ops (CircularBuffer_new always_alloc 2) [Write [Fin 1], Read 1]) \<le> 2 \<and>
   isFull (write_c (apply_ops (CircularBuffer_new always_alloc 2) [Write [Fin 1], Read 1]) [Fin 5, Fin 6, Fin 7]) \<and>
   peek (write_c (apply_ops (CircularBuffer_new always_alloc 2) [Write [Fin 1], Read 1]) [Fin 5, Fin 6, Fin 7]) 2 0
     = [Fin 6, Fin 7]"
proof -
  let ?cb = "apply_ops (CircularBuffer_new always_alloc 2) [Write [Fin 1], Read 1]"
  have sz: "size_c ?cb = 2"
    by (simp add: size_new_always del: apply_ops.simps)
  have pos: "0 < size_c ?cb" by (simp only: sz)
  show ?thesis
    using C9_available_bounded_and_full_after_long_write [OF refl pos, of "[Fin 5, Fin 6, Fin 7]"]
    by (simp add: size_new_always del: apply_ops.simps write_c.simps)
qed

text \<open>
  C10. In every state reached from a fresh buffer, \<^verbatim>\<open>peek(length, offset)\<close> with
  \<open>length + offset \<le> capacity\<close> reads the storage only at indices in \<open>[0, capacity)\<close>. The
  bound is needed and \<^verbatim>\<open>peek\<close> does not check it: on a fresh buffer of capacity 4,
  \<^verbatim>\<open>peek(5)\<close> reads at index \<open>-1\<close>.
\<close>
theorem C10_peek_indices_in_bounds:
  "(len + offset \<le> size_c (apply_ops (CircularBuffer_new alloc sz) ops) \<longrightarrow>
      (\<forall>i \<in> set (peekIndices (size_c (apply_ops (CircularBuffer_new alloc sz) ops)) len
                    (peekStart (apply_ops (CircularBuffer_new alloc sz) ops) len offset)).
         0 \<le> i \<and> i < int (size_c (apply_ops (CircularBuffer_new alloc sz) ops))))
   \<and> (\<exists>i \<in> set (peekIndices (size_c (CircularBuffer_new always_alloc 4)) 5
                    (peekStart (CircularBuffer_new always_alloc 4) 5 0)). i < 0)"
proof
  let ?cb = "apply_ops (CircularBuffer_new alloc sz) ops"
  show "len + offset \<le> size_c ?cb \<longrightarrow>
      (\<forall>i \<in> set (peekIndices (size_c ?cb) len (peekStart ?cb len offset)). 0 \<le> i \<and> i < int (size_c ?cb))"
  proof (intro impI ballI)
    fix i
    assume le: "len + offset \<le> size_c ?cb"
      and i: "i \<in> set (peekIndices (size_c ?cb) len (peekStart ?cb len offset))"
    show "0 \<le> i \<and> i < int (size_c ?cb)"
    proof (cases "size_c ?cb = 0")
      case True
      then have "len = 0" using le by simp
      then show ?thesis using i by simp
    next
      case False
      then have "0 < size_c (CircularBuffer_new alloc sz)" by simp
      then have "cb_inv (CircularBuffer_new alloc sz)" by (rule inv_new)
      then have inv: "cb_inv ?cb" by (rule inv_apply_ops)
      have s: "0 \<le> peekStart ?cb len offset \<and> peekStart ?cb len offset < int (size_c ?cb)"
        using inv le by (rule peekStart_range)
      show ?thesis
        using False s i peekIndices_range [of "size_c ?cb" "peekStart ?cb len offset" i len] by simp
    qed
  qed
next
  show "\<exists>i \<in> set (peekIndices (size_c (CircularBuffer_new always_alloc 4)) 5
                    (peekStart (CircularBuffer_new always_alloc 4) 5 0)). i < 0"
    by code_simp
qed

text \<open>C10 at capacity 4 with two samples written, \<^verbatim>\<open>peek(2, 1)\<close>.\<close>
theorem C10_peek_indices_in_bounds_witness:
  "2 + 1 \<le> size_c (apply_ops (CircularBuffer_new always_alloc 4) [Write [Fin 1, Fin 2]]) \<and>
   list_all (\<lambda>i. 0 \<le> i \<and> i < 4)
     (peekIndices 4 2 (peekStart (apply_ops (CircularBuffer_new always_alloc 4) [Write [Fin 1, Fin 2]]) 2 1))"
proof -
  let ?cb = "apply_ops (CircularBuffer_new always_alloc 4) [Write [Fin 1, Fin 2]]"
  have sz: "size_c ?cb = 4"
    by (simp add: size_new_always del: apply_ops.simps)
  show ?thesis
    using C10_peek_indices_in_bounds [of 2 1 always_alloc 4 "[Write [Fin 1, Fin 2]]"]
    by (simp add: size_new_always list_all_iff del: apply_ops.simps)
qed


section \<open>Linear prediction: lemmas and claims\<close>








lemma ld_k_step:
  "ld_k (levinson_step autocorr i st) =
     (ld_k st)[i := n_div (n_sub (readAt autocorr (int (i + 1)))
        (fold (\<lambda>j s. n_add s (n_mul (readAt (ld_a st) (int (j + 1))) (readAt autocorr (int (i - j))))) [0..<i] (Fin 0)))
        (ld_E st)]"
  by (simp add: levinson_step_def Let_def)

lemma length_ld_k_step [simp]: "length (ld_k (levinson_step autocorr i st)) = length (ld_k st)"
  by (simp add: ld_k_step)













lemma loop_example_zero:
  "levinson_loop (replicate 5 (Fin 0)) 4 0
     \<lparr>ld_a = replicate (4 + 1) (Fin 0), ld_k = replicate 4 (Fin 0),
      ld_atemp = replicate (4 + 1) (Fin 0), ld_E = readAt (replicate 5 (Fin 0)) 0\<rparr>
   = \<lparr>ld_a = [Fin 0, NaN, NaN, NaN, NaN], ld_k = [NaN, NaN, NaN, NaN],
      ld_atemp = [Fin 0, NaN, NaN, NaN, Fin 0], ld_E = NaN\<rparr>"
  by code_simp

lemma upt_4: "[0..<4] = [0, 1, 2, 3]"
  by (simp add: upt_rec)

text \<open>
  C5. Claim: on an all-zero autocorrelation vector \<^verbatim>\<open>levinsonDurbin\<close> returns
  \<^verbatim>\<open>predictionError\<close> 0 and all-zero coefficients. In the source the first stage divides
  \<open>0\<close> by \<open>E = 0\<close> before \<open>E\<close> is tested; the quotient is NaN, \<open>E\<close> becomes NaN, and
  \<^verbatim>\<open>E <= 0\<close> is false for NaN, so the loop runs to the end. On five zeros with order 4
  (the input of the repository's own test) every coefficient, the error and the gain are NaN.
\<close>
theorem C5_levinsonDurbin_zero_autocorrelation_gives_NaN:
  "levinsonDurbin (replicate 5 (Fin 0)) 4 =
     \<lparr>coefficients = [NaN, NaN, NaN, NaN], reflectionCoefficients = [NaN, NaN, NaN, NaN],
      predictionError = NaN, gain = NaN\<rparr>"
  unfolding levinsonDurbin_def Let_def loop_example_zero
  by (simp add: upt_4 readAt_def n_sqrt_def)

lemma length_area_step [simp]: "length (area_step rc i areas) = length areas"
  by (simp add: area_step_def Let_def)


lemma fold_area_Suc:
  "fold (area_step rc) [0..<Suc m] areas = area_step rc m (fold (area_step rc) [0..<m] areas)"
  by simp

lemma length_fold_area [simp]: "length (fold (area_step rc) [0..<m] areas) = length areas"
  by (induction m) simp_all











section \<open>The pitch estimator: lemmas and claim\<close>

lemma length_fold_store [simp]:
  "length (fold (\<lambda>lag autocorr. autocorr[lag := f lag]) ls xs) = length xs"
  by (induction ls arbitrary: xs) simp_all

lemma fold_store_untouched:
  "j \<notin> set ls \<Longrightarrow> fold (\<lambda>lag autocorr. autocorr[lag := f lag]) ls xs ! j = xs ! j"
  by (induction ls arbitrary: xs) simp_all

lemma pitchAutocorr_zero_lag:
  assumes "500 \<le> sampleRate"
  shows "readAt (pitchAutocorr sampleRate frame) 0 = Fin 0"
proof -
  have lo: "1 \<le> sampleRate div 500"
    using assms by (simp add: Suc_le_eq div_greater_zero_iff)
  have hi: "0 < sampleRate div 50"
    using assms by (simp add: div_greater_zero_iff)
  have "0 \<notin> set [sampleRate div 500..<sampleRate div 50]" using lo by simp
  then have "pitchAutocorr sampleRate frame ! 0 = replicate (sampleRate div 50) (Fin 0) ! 0"
    unfolding pitchAutocorr_def Let_def by (rule fold_store_untouched)
  moreover have "length (pitchAutocorr sampleRate frame) = sampleRate div 50"
    by (simp add: pitchAutocorr_def Let_def)
  ultimately show ?thesis using hi by (simp add: readAt_def)
qed

lemma n_ge_zero_trans: "n_le (Fin 0) m \<Longrightarrow> n_lt m x \<Longrightarrow> n_le (Fin 0) x"
  by (cases m; cases x) (simp_all add: n_le_def n_lt_def)

lemma peak_fold_nonneg:
  "n_le (Fin 0) (fst acc) \<Longrightarrow>
   n_le (Fin 0) (fst (fold (\<lambda>i (maxValue, maxIndex).
                 if n_gt (readAt autocorr (int i)) maxValue then (readAt autocorr (int i), i)
                 else (maxValue, maxIndex)) ls acc))"
proof (induction ls arbitrary: acc)
  case Nil
  then show ?case by simp
next
  case (Cons i ls)
  obtain mv mi where acc: "acc = (mv, mi)" by (cases acc)
  have "n_le (Fin 0) (fst (if n_gt (readAt autocorr (int i)) mv then (readAt autocorr (int i), i) else (mv, mi)))"
    using Cons.prems acc n_ge_zero_trans [of mv "readAt autocorr (int i)"]
    by (simp add: n_gt_def)
  then show ?case using Cons.IH acc by simp
qed

lemma pitchPeak_nonneg: "n_le (Fin 0) (fst (pitchPeak sampleRate autocorr))"
  unfolding pitchPeak_def Let_def by (rule peak_fold_nonneg) (simp add: n_le_def)

lemma threshold_zero: "n_mul (Fin 0) (Fin 0.3) = Fin 0"
  by code_simp

lemma not_lt_zero: "n_le (Fin 0) m \<Longrightarrow> \<not> n_lt m (Fin 0)"
  by (cases m) (simp_all add: n_le_def n_lt_def)

text \<open>
  With a sample rate of 500 or more the first loop starts at a lag of at least 1 and never
  stores \<^verbatim>\<open>autocorr[0]\<close>, so the threshold is \<open>0 \<times> 0.3 = 0\<close>; \<^verbatim>\<open>maxValue\<close> starts at 0 and only
  grows, so the test \<^verbatim>\<open>maxValue < threshold\<close> never holds and the estimator never returns
  \<^verbatim>\<open>null\<close>.
\<close>
lemma estimatePitch_never_null:
  assumes "500 \<le> sampleRate"
  shows "estimatePitch sampleRate frame \<noteq> None"
proof -
  obtain mv mi where p: "pitchPeak sampleRate (pitchAutocorr sampleRate frame) = (mv, mi)"
    by (cases "pitchPeak sampleRate (pitchAutocorr sampleRate frame)")
  have "n_le (Fin 0) mv"
    using pitchPeak_nonneg [of sampleRate "pitchAutocorr sampleRate frame"] p by simp
  then have "\<not> n_lt mv (Fin 0)" by (rule not_lt_zero)
  then show ?thesis
    by (simp add: estimatePitch_def Let_def p pitchAutocorr_zero_lag [OF assms] threshold_zero)
qed

text \<open>
  C4. Claim: the estimator returns \<^verbatim>\<open>null\<close> exactly when the largest autocorrelation in the
  lag range is below 0.3 times the zero-lag autocorrelation (the frame's energy). The source
  compares with \<^verbatim>\<open>autocorr[0]\<close> of an array it fills only from \<^verbatim>\<open>minPeriod\<close> on. At sample
  rate 1000 and the one-sample frame \<open>[1]\<close> the energy is 1, every autocorrelation in the
  lag range \<open>[2, 20)\<close> is 0, and the estimator returns \<open>1000 / 0\<close>, the positive infinity,
  instead of \<^verbatim>\<open>null\<close>.
\<close>
theorem C4_estimatePitch_ignores_frame_energy:
  "lagSum [Fin 1] 0 = Fin 1 \<and>
   map (lagSum [Fin 1]) [1000 div 500..<1000 div 50] = replicate 18 (Fin 0) \<and>
   estimatePitch 1000 [Fin 1] = Some PosInf"
  by code_simp


section \<open>The Fourier transform: lemmas and claims\<close>

lemma and_pred_even:
  assumes "0 < m"
  shows "(2 * m) AND (2 * m - 1) = 2 * (m AND (m - 1 :: nat))"
proof -
  have "(2 * m - 1) div 2 = m - 1" using assms by (cases m) simp_all
  moreover have "odd (2 * m - 1)" using assms by (cases m) simp_all
  ultimately show ?thesis
    by (subst and_nat_rec) simp
qed

lemma and_pred_odd: "(2 * m + 1) AND (2 * m + 1 - 1) = 2 * (m :: nat)"
  by (subst and_nat_rec) simp

lemma isPowerOfTwo_imp_power: "isPowerOfTwo n \<Longrightarrow> \<exists>k. n = 2 ^ k"
proof (induction n rule: less_induct)
  case (less n)
  then have pos: "0 < n" and z: "n AND (n - 1) = 0" by (simp_all add: isPowerOfTwo_def)
  show ?case
  proof (cases "even n")
    case True
    then obtain m where n: "n = 2 * m" by (elim evenE)
    then have m: "0 < m" using pos by simp
    have "m AND (m - 1) = 0" using z and_pred_even [OF m] by (simp add: n)
    then have "isPowerOfTwo m" using m by (simp add: isPowerOfTwo_def)
    moreover have "m < n" using n m by simp
    ultimately obtain k where "m = 2 ^ k" using less.IH by blast
    then have "n = 2 ^ Suc k" using n by simp
    then show ?thesis by blast
  next
    case False
    then obtain m where n: "n = 2 * m + 1" by (elim oddE)
    have "2 * m = 0" using z and_pred_odd [of m] by (simp add: n)
    then have "n = 2 ^ 0" using n by simp
    then show ?thesis by blast
  qed
qed

lemma power_imp_isPowerOfTwo: "isPowerOfTwo (2 ^ k)"
proof (induction k)
  case 0
  show ?case by (simp add: isPowerOfTwo_def)
next
  case (Suc k)
  have "(2::nat) * 2 ^ k AND (2 * 2 ^ k - 1) = 2 * (2 ^ k AND (2 ^ k - 1))"
    by (rule and_pred_even) simp
  then show ?case using Suc by (simp add: isPowerOfTwo_def)
qed

lemma isPowerOfTwo_iff: "isPowerOfTwo n \<longleftrightarrow> (\<exists>k. n = 2 ^ k)"
  using isPowerOfTwo_imp_power power_imp_isPowerOfTwo by blast

lemma log2_c_power: "log2_c (2 ^ k) = k"
proof (induction k)
  case 0
  show ?case by (subst log2_c.simps) simp
next
  case (Suc k)
  have "(2::nat) \<le> 2 ^ Suc k" by simp
  then have "log2_c (2 ^ Suc k) = Suc (log2_c (2 ^ Suc k div 2))"
    by (subst log2_c.simps) (simp del: power_Suc)
  then show ?case using Suc by simp
qed

lemma shift_or_bit: "push_bit 1 r OR (n AND 1) = 2 * r + n mod (2::nat)"
proof (cases "even n")
  case True
  then show ?thesis by (simp add: and_one_eq mod_2_eq_odd)
next
  case False
  have pb: "push_bit 1 r = 2 * r" by (simp add: push_bit_eq_mult)
  have b: "n AND 1 = 1" "n mod 2 = 1"
    using False by (simp_all add: and_one_eq mod_2_eq_odd)
  have "2 * r OR 1 = 2 * r + (1::nat)"
    by (subst or_nat_rec) simp
  then show ?thesis unfolding pb b .
qed

lemma bitReverse_loop_bound: "bitReverse_loop b n r < (r + 1) * 2 ^ b"
proof (induction b arbitrary: n r)
  case 0
  show ?case by simp
next
  case (Suc b)
  define q where "q = push_bit 1 r OR (n AND 1)"
  have "n mod 2 \<le> 1" by simp
  then have "q \<le> 2 * r + 1" unfolding q_def shift_or_bit by (rule add_left_mono)
  then have "q + 1 \<le> 2 * r + 2" by simp
  then have "(q + 1) * 2 ^ b \<le> (2 * r + 2) * 2 ^ b" by (rule mult_le_mono1)
  moreover have "bitReverse_loop b (drop_bit 1 n) q < (q + 1) * 2 ^ b"
    by (rule Suc.IH)
  moreover have "bitReverse_loop (Suc b) n r = bitReverse_loop b (drop_bit 1 n) q"
    unfolding q_def by (rule bitReverse_loop.simps)
  moreover have "(2 * r + 2) * 2 ^ b = (r + 1) * 2 ^ Suc b" by simp
  ultimately show ?case by simp
qed

lemma bitReverse_bound: "bitReverse i bits < 2 ^ bits"
  using bitReverse_loop_bound [of bits i 0] by (simp add: bitReverse_def)

lemma foldE_invariant:
  assumes "\<And>x s. x \<in> set ls \<Longrightarrow> P s \<Longrightarrow> \<exists>s1. f x s = Inr s1 \<and> P s1" and "P s"
  shows "\<exists>s1. foldE f ls s = Inr s1 \<and> P s1"
  using assms
proof (induction ls arbitrary: s)
  case Nil
  then show ?case by simp
next
  case (Cons x ls)
  obtain s1 where s1: "f x s = Inr s1" "P s1" using Cons.prems by fastforce
  have "\<exists>s2. foldE f ls s1 = Inr s2 \<and> P s2"
    using Cons.prems(1) s1(2) by (intro Cons.IH) simp_all
  then show ?case using s1 by simp
qed

lemma swap_step_ok:
  assumes "length xs = 2 ^ bits" "i < 2 ^ bits"
  shows "\<exists>ys. swap_step bits i xs = Inr ys \<and> length ys = 2 ^ bits"
  using assms bitReverse_bound [of i bits] by (simp add: swap_step_def getC_def Let_def)

lemma butterfly_ok:
  assumes "length xs = N" "k + j + drop_bit 1 (push_bit stage (1::nat)) < N"
  shows "\<exists>ys. butterfly stage k j xs = Inr ys \<and> length ys = N"
  using assms by (simp add: butterfly_def getC_def Let_def)

lemma dvd_step: "m dvd k \<Longrightarrow> m dvd N \<Longrightarrow> k < N \<Longrightarrow> k + m \<le> (N::nat)"
proof -
  assume a: "m dvd k" "m dvd N" "k < N"
  then have "m dvd N - k" by (simp add: dvd_diff_nat)
  moreover have "0 < N - k" using a by simp
  ultimately have "m \<le> N - k" by (rule dvd_imp_le)
  then show ?thesis using a by simp
qed

lemma half_block: "0 < stage \<Longrightarrow> drop_bit 1 (push_bit stage (1::nat)) + drop_bit 1 (push_bit stage (1::nat)) = 2 ^ stage"
  by (cases stage) (simp_all add: push_bit_eq_mult drop_bit_eq_div)

lemma k_loop_ok:
  "0 < stage \<Longrightarrow> 2 ^ stage dvd N \<Longrightarrow> 2 ^ stage dvd k \<Longrightarrow> length xs = N \<Longrightarrow>
   \<exists>ys. k_loop N stage k xs = Inr ys \<and> length ys = N"
proof (induction N stage k xs rule: k_loop.induct)
  case (1 N stage k xs)
  let ?m2 = "drop_bit 1 (push_bit stage (1::nat))"
  show ?case
  proof (cases "k < N")
    case True
    have step: "k + 2 ^ stage \<le> N"
      using "1.prems"(3,2) True by (rule dvd_step)
    have hb: "?m2 + ?m2 = 2 ^ stage" using "1.prems"(1) by (rule half_block)
    have "\<exists>ys. foldE (butterfly stage k) [0..<?m2] xs = Inr ys \<and> length ys = N"
    proof (rule foldE_invariant [where P = "\<lambda>s. length s = N"])
      fix j and s :: "Complex list" assume "j \<in> set [0..<?m2]" and "length s = N"
      then have "k + j + ?m2 < N" using step hb by simp
      then show "\<exists>s1. butterfly stage k j s = Inr s1 \<and> length s1 = N"
        using \<open>length s = N\<close> by (intro butterfly_ok)
    next
      show "length xs = N" by (rule "1.prems"(4))
    qed
    then obtain ys where ys: "foldE (butterfly stage k) [0..<?m2] xs = Inr ys" "length ys = N"
      by blast
    have "2 ^ stage dvd k + push_bit stage (1::nat)"
      using "1.prems"(3) by (simp add: push_bit_eq_mult)
    then have "\<exists>zs. k_loop N stage (k + push_bit stage (1::nat)) ys = Inr zs \<and> length zs = N"
      using "1.IH" [OF True ys(1) "1.prems"(1,2) _ ys(2)] by simp
    then show ?thesis using True ys by (subst k_loop.simps) simp
  next
    case False
    then show ?thesis using "1.prems"(4) by (subst k_loop.simps) simp
  qed
qed

lemma fft_core_ok:
  assumes "length xs = 2 ^ bits"
  shows "\<exists>ys. fft_core xs = Inr ys \<and> length ys = 2 ^ bits"
proof -
  let ?N = "2 ^ bits :: nat"
  have lg: "log2_c (length xs) = bits" using assms by (simp add: log2_c_power)
  have "\<exists>ys. foldE (swap_step bits) [0..<?N] xs = Inr ys \<and> length ys = ?N"
  proof (rule foldE_invariant [where P = "\<lambda>s. length s = ?N"])
    fix i and s :: "Complex list" assume "i \<in> set [0..<?N]" and "length s = ?N"
    then show "\<exists>s1. swap_step bits i s = Inr s1 \<and> length s1 = ?N"
      by (intro swap_step_ok) simp_all
  next
    show "length xs = ?N" by (rule assms)
  qed
  then obtain ys where ys: "foldE (swap_step bits) [0..<?N] xs = Inr ys" "length ys = ?N"
    by blast
  have "\<exists>zs. foldE (\<lambda>stage. k_loop ?N stage 0) [1..<bits + 1] ys = Inr zs \<and> length zs = ?N"
  proof (rule foldE_invariant [where P = "\<lambda>s. length s = ?N"])
    fix stage and s :: "Complex list" assume st: "stage \<in> set [1..<bits + 1]" and s: "length s = ?N"
    have "1 \<le> stage \<and> stage < bits + 1"
      using st unfolding set_upt atLeastLessThan_iff .
    then have "0 < stage" and "(2::nat) ^ stage dvd 2 ^ bits"
      by (simp_all add: le_imp_power_dvd)
    then show "\<exists>s1. k_loop ?N stage 0 s = Inr s1 \<and> length s1 = ?N"
      using s by (intro k_loop_ok) simp_all
  next
    show "length ys = ?N" by (rule ys(2))
  qed
  moreover have "fft_core xs = foldE (\<lambda>stage. k_loop ?N stage 0) [1..<bits + 1] ys"
    unfolding fft_core_def Let_def assms log2_c_power ys(1) by (simp only: sum.case)
  ultimately show ?thesis by (simp only:)
qed

text \<open>
  C8. \<^verbatim>\<open>fft\<close> fails with \<open>InvalidSize\<close> (the thrown \<^verbatim>\<open>Error\<close>) on every signal whose length is
  not a power of two, and on every signal whose length \<open>N\<close> is a power of two it returns
  a sequence of exactly \<open>N\<close> complex values: every element read of the bit reversal and of the
  butterflies is inside the array.
\<close>
theorem C8_fft_InvalidSize_or_same_length:
  "((\<nexists>k. length signal = 2 ^ k) \<longrightarrow> fft signal = Inl InvalidSize) \<and>
   ((\<exists>k. length signal = 2 ^ k) \<longrightarrow> (\<exists>cs. fft signal = Inr cs \<and> length cs = length signal))"
proof (intro conjI impI)
  assume "\<nexists>k. length signal = 2 ^ k"
  then have "\<not> isPowerOfTwo (length signal)" by (simp add: isPowerOfTwo_iff)
  then show "fft signal = Inl InvalidSize" by (simp add: fft_def Let_def)
next
  assume "\<exists>k. length signal = 2 ^ k"
  then obtain k where k: "length signal = 2 ^ k" by blast
  then have p: "isPowerOfTwo (length signal)" by (simp add: isPowerOfTwo_iff)
  have "\<exists>ys. fft_core (map (\<lambda>x. \<lparr>real_c = x, imag_c = Fin 0\<rparr>) signal) = Inr ys \<and> length ys = 2 ^ k"
    by (rule fft_core_ok) (simp add: k)
  then show "\<exists>cs. fft signal = Inr cs \<and> length cs = length signal"
    using p k by (simp add: fft_def Let_def)
qed

text \<open>C8 at a signal of three samples and at a signal of two.\<close>
theorem C8_fft_InvalidSize_or_same_length_witness:
  "fft [Fin 1, Fin 2, Fin 3] = Inl InvalidSize \<and>
   (\<exists>cs. fft [Fin 1, Fin 2] = Inr cs \<and> length cs = 2)"
proof -
  have l3: "length [Fin 1, Fin 2, Fin 3] = (3::nat)" by simp
  have "\<not> isPowerOfTwo 3" by code_simp
  then have a: "\<nexists>k. length [Fin 1, Fin 2, Fin 3] = 2 ^ k"
    unfolding l3 isPowerOfTwo_iff .
  have "length [Fin 1, Fin 2] = 2 ^ 1" by simp
  then have b: "\<exists>k. length [Fin 1, Fin 2] = 2 ^ k" by (rule exI)
  have x: "fft [Fin 1, Fin 2, Fin 3] = Inl InvalidSize"
    using C8_fft_InvalidSize_or_same_length [of "[Fin 1, Fin 2, Fin 3]"] a by blast
  have "\<exists>cs. fft [Fin 1, Fin 2] = Inr cs \<and> length cs = length [Fin 1, Fin 2]"
    using C8_fft_InvalidSize_or_same_length [of "[Fin 1, Fin 2]"] b by blast
  moreover have "length [Fin 1, Fin 2] = (2::nat)" by simp
  ultimately have y: "\<exists>cs. fft [Fin 1, Fin 2] = Inr cs \<and> length cs = 2" by (simp only:)
  show ?thesis using x y by blast
qed

lemma tw20: "twiddle 2 0 = \<lparr>real_c = Fin 1, imag_c = NegZero\<rparr>"
  by (simp add: twiddle_def n_mul_def n_div_def n_cos_def n_sin_def iszero_def fin_def zero_signed_def Let_def)

lemma tw40: "twiddle 4 0 = \<lparr>real_c = Fin 1, imag_c = NegZero\<rparr>"
  by (simp add: twiddle_def n_mul_def n_div_def n_cos_def n_sin_def iszero_def fin_def zero_signed_def Let_def)

lemma tw41: "twiddle 4 1 = \<lparr>real_c = Fin 0, imag_c = Fin (- 1)\<rparr>"
  by (simp add: twiddle_def n_mul_def n_div_def n_cos_def n_sin_def iszero_def fin_def zero_signed_def Let_def)

text \<open>
  The twiddle factors of the transforms of length 2 and 4, as a code equation: with it the
  transform is evaluated on concrete signals of these lengths.
\<close>
lemma twiddle_table [code]: "twiddle m j = (if m = 2 \<and> j = 0 then \<lparr>real_c = Fin 1, imag_c = NegZero\<rparr>
   else if m = 4 \<and> j = 0 then \<lparr>real_c = Fin 1, imag_c = NegZero\<rparr>
   else if m = 4 \<and> j = 1 then \<lparr>real_c = Fin 0, imag_c = Fin (- 1)\<rparr> else twiddle m j)"
  using tw20 tw40 tw41 by auto


text \<open>
  C3. Claim: \<^verbatim>\<open>ifft\<close> conjugates the spectrum, applies the forward transform to the
  conjugated complex sequence, scales by \<open>1/N\<close> and returns the real parts. The source
  conjugates, but then calls \<^verbatim>\<open>fft\<close>, which takes a real signal, on the real parts alone, so
  the imaginary parts never reach the transform. The spectrum of the signal
  \<open>[0, 1, 0, -1]\<close> is \<open>[0, -2i, 0, 2i]\<close>; on it \<^verbatim>\<open>ifft\<close> returns \<open>[0, 0, 0, 0]\<close>, and the
  algorithm of the claim returns \<open>[0, 1, 0, -1]\<close>.
\<close>
theorem C3_ifft_drops_imaginary_parts:
  "fft [Fin 0, Fin 1, Fin 0, Fin (- 1)] =
     Inr [\<lparr>real_c = Fin 0, imag_c = Fin 0\<rparr>, \<lparr>real_c = Fin 0, imag_c = Fin (- 2)\<rparr>,
          \<lparr>real_c = Fin 0, imag_c = Fin 0\<rparr>, \<lparr>real_c = Fin 0, imag_c = Fin 2\<rparr>] \<and>
   ifft [\<lparr>real_c = Fin 0, imag_c = Fin 0\<rparr>, \<lparr>real_c = Fin 0, imag_c = Fin (- 2)\<rparr>,
         \<lparr>real_c = Fin 0, imag_c = Fin 0\<rparr>, \<lparr>real_c = Fin 0, imag_c = Fin 2\<rparr>] =
     Inr [Fin 0, Fin 0, Fin 0, Fin 0] \<and>
   ifft_reference [\<lparr>real_c = Fin 0, imag_c = Fin 0\<rparr>, \<lparr>real_c = Fin 0, imag_c = Fin (- 2)\<rparr>,
         \<lparr>real_c = Fin 0, imag_c = Fin 0\<rparr>, \<lparr>real_c = Fin 0, imag_c = Fin 2\<rparr>] =
     Inr [Fin 0, Fin 1, Fin 0, Fin (- 1)]"
  by code_simp


end
